theory Spec2Isabelle
  imports Main "HOL-Library.AList" "HOL-Library.Sublist"
begin

section \<open>Face recognizer views: upload, index, match, clean up, archive\<close>

text \<open>
  A shallow embedding of \<^verbatim>\<open>apps/face_recognition/views.py\<close>. The views talk to two
  remote services (the object store and the face index) and to the local file system.
  Every effect is explicit: a view takes the world and returns its result together with
  the world it leaves behind, and an exception that leaves a function is the value
  \<open>Inl\<close> of its result.
\<close>

subsection \<open>Data\<close>

type_synonym bytes = string

text \<open>The exceptions that occur: the one \<^verbatim>\<open>ensure_collection_exists\<close> catches by name,
  any other error raised by a client call, the two the local code can raise itself, and
  the two \<^verbatim>\<open>zipfile\<close> raises on an entry name it cannot write (\<^verbatim>\<open>struct.error\<close>
  is \<open>StructError\<close>).\<close>

datatype exn =
    ResourceAlreadyExistsException
  | ClientError string
  | JSONDecodeError
  | FileNotFoundError
  | IndexError
  | StructError

text \<open>A remote call and what came back. The world keeps the list of them, oldest first.\<close>

datatype call =
    CreateCollection
  | UploadFile string string
  | IndexFaces string
  | SearchFacesByImage bytes
  | GeneratePresignedUrl string
  | GetObject string

datatype reply =
    Returned
  | Raised exn
  | FaceMatches "string list"
  | Url string
  | Body bytes

type_synonym event = "call \<times> reply"

text \<open>
  The persisted state of \<^verbatim>\<open>CACHE_FILE\<close> as \<^verbatim>\<open>json.load\<close> sees it: a JSON object
  from fingerprint to external identifier (what \<^verbatim>\<open>save_cache\<close> writes; a Python dict
  keeps insertion order, hence an association list), or bytes that are not valid JSON.
  A file holding some other JSON value is not covered.
\<close>

datatype cache_content =
    JSONObject "(string \<times> string) list"
  | Malformed bytes

record world =
  files :: "(string \<times> bytes) list"
  cache_file :: "cache_content option"
  trace :: "event list"

text \<open>
  The environment: the configuration constants, the digest of \<^verbatim>\<open>hashlib\<close>, and the
  two clients. What a remote call answers is not decided by the program: each call of
  a client is a function of the calls made so far and of its arguments, so a call can
  fail once and succeed later. \<open>None\<close> is a normal return of a call made for its effect.
  The search answers with the \<^verbatim>\<open>ExternalImageId\<close> of each of its \<^verbatim>\<open>FaceMatches\<close>, in
  order; the collection, the bucket, the threshold and the other fixed arguments of the
  calls are part of the client. \<open>zip_takes_empty_name\<close> says whether the \<^verbatim>\<open>zipfile\<close>
  of the running Python writes an entry whose name is empty: \<^verbatim>\<open>writestr\<close> of Python
  3.11 looks at the last character of the name, which raises \<^verbatim>\<open>IndexError\<close> on an
  empty name (\<open>False\<close>); a library that writes the entry is \<open>True\<close>.
\<close>

record env =
  BASE_DIR :: string
  BUCKET_NAME :: string
  AWS_REGION :: string
  md5_hexdigest :: "bytes \<Rightarrow> string"
  create_collection :: "event list \<Rightarrow> exn option"
  upload_file :: "event list \<Rightarrow> string \<Rightarrow> string \<Rightarrow> exn option"
  index_faces :: "event list \<Rightarrow> string \<Rightarrow> exn option"
  search_faces_by_image :: "event list \<Rightarrow> bytes \<Rightarrow> exn + string list"
  generate_presigned_url :: "event list \<Rightarrow> string \<Rightarrow> exn + string"
  get_object :: "event list \<Rightarrow> string \<Rightarrow> exn + bytes"
  zip_takes_empty_name :: bool

text \<open>An uploaded file of \<^verbatim>\<open>request.FILES\<close>: its name and the bytes of its chunks.\<close>

record uploaded_file =
  name :: string
  chunks :: bytes

text \<open>
  The body of a download request as \<^verbatim>\<open>json.loads\<close> and \<^verbatim>\<open>data.get("keys", [])\<close>
  read it: \<open>InvalidJSON\<close> when either raises, otherwise the list of keys (empty when
  the field is absent).
\<close>

datatype zip_body = InvalidJSON | Keys "string list"

text \<open>A request: \<^verbatim>\<open>request.method\<close>, the two fields of \<^verbatim>\<open>request.FILES\<close> and
  \<^verbatim>\<open>request.body\<close>.\<close>

record request =
  request_method :: string
  gallery_images :: "uploaded_file list"
  reference_image :: "uploaded_file option"
  body :: zip_body

datatype payload =
    ErrorMessage string
  | Matches "string list" "string list"

text \<open>\<open>FileResponse\<close> carries the entries of the archive, the content type and the
  \<^verbatim>\<open>Content-Disposition\<close> header.\<close>

datatype response =
    JsonResponse payload nat
  | FileResponse "(string \<times> bytes) list" string string

subsection \<open>Paths and file names\<close>

text \<open>
  \<^verbatim>\<open>os.path.join\<close> and \<^verbatim>\<open>os.path.basename\<close> of two strings, as \<^verbatim>\<open>posixpath\<close>
  computes them, and \<^verbatim>\<open>UPLOAD_FOLDER\<close> as the module builds it. \<^verbatim>\<open>str.lower\<close> is taken
  on the ASCII letters, the only ones that can become a letter of the three extensions.
\<close>

definition os_path_join :: "string \<Rightarrow> string \<Rightarrow> string" where
  "os_path_join a b =
     (if b \<noteq> [] \<and> hd b = CHR ''/'' then b
      else if a = [] \<or> last a = CHR ''/'' then a @ b
      else a @ CHR ''/'' # b)"

definition os_path_basename :: "string \<Rightarrow> string" where
  "os_path_basename p = rev (takeWhile (\<lambda>c. c \<noteq> CHR ''/'') (rev p))"

definition UPLOAD_FOLDER :: "env \<Rightarrow> string" where
  "UPLOAD_FOLDER e = os_path_join (BASE_DIR e) ''uploads''"

definition lower_char :: "char \<Rightarrow> char" where
  "lower_char c =
     (let n = (of_char c :: nat) in if 65 \<le> n \<and> n \<le> 90 then char_of (n + 32) else c)"

definition lower :: "string \<Rightarrow> string" where
  "lower s = map lower_char s"

definition endswith :: "string \<Rightarrow> string \<Rightarrow> bool" where
  "endswith s suf = (length suf \<le> length s \<and> drop (length s - length suf) s = suf)"

definition has_image_extension :: "string \<Rightarrow> bool" where
  "has_image_extension filename =
     (endswith (lower filename) ''.jpg'' \<or> endswith (lower filename) ''.jpeg''
      \<or> endswith (lower filename) ''.png'')"

subsection \<open>The local file system\<close>

text \<open>Files are kept by path. Opening for writing creates or replaces the file; the
  names written are those of uploaded files, which the framework hands over without a
  directory part, so the path is that of a file in the folder.\<close>

definition write_file :: "string \<Rightarrow> bytes \<Rightarrow> world \<Rightarrow> world" where
  "write_file path buf w = w\<lparr>files := AList.update path buf (files w)\<rparr>"

definition read_file :: "world \<Rightarrow> string \<Rightarrow> exn + bytes" where
  "read_file w path =
     (case map_of (files w) path of None \<Rightarrow> Inl FileNotFoundError | Some buf \<Rightarrow> Inr buf)"

text \<open>The entries of directory \<open>d\<close>: the files whose path is \<open>d\<close>, a separator and a
  name without separator. The upload folder holds files only: the views make no
  directory in it.\<close>

definition entry_of :: "string \<Rightarrow> string \<Rightarrow> bool" where
  "entry_of d p =
     (take (Suc (length d)) p = d @ ''/''
      \<and> drop (Suc (length d)) p \<noteq> []
      \<and> CHR ''/'' \<notin> set (drop (Suc (length d)) p))"

definition listdir :: "world \<Rightarrow> string \<Rightarrow> string list" where
  "listdir w d =
     remdups (map (drop (Suc (length d))) (filter (entry_of d) (map fst (files w))))"

definition os_remove :: "string \<Rightarrow> world \<Rightarrow> world" where
  "os_remove path w = w\<lparr>files := AList.delete path (files w)\<rparr>"

definition log_event :: "call \<Rightarrow> reply \<Rightarrow> world \<Rightarrow> world" where
  "log_event c r w = w\<lparr>trace := trace w @ [(c, r)]\<rparr>"

subsection \<open>Cache handling\<close>

definition load_cache :: "world \<Rightarrow> exn + (string \<times> string) list" where
  "load_cache w =
     (case cache_file w of
        None \<Rightarrow> Inr []
      | Some (JSONObject d) \<Rightarrow> Inr d
      | Some (Malformed s) \<Rightarrow> Inl JSONDecodeError)"

definition save_cache :: "(string \<times> string) list \<Rightarrow> world \<Rightarrow> world" where
  "save_cache cache w = w\<lparr>cache_file := Some (JSONObject cache)\<rparr>"


subsection \<open>Remote helpers\<close>

definition ensure_collection_exists :: "env \<Rightarrow> world \<Rightarrow> (exn + unit) \<times> world" where
  "ensure_collection_exists e w =
     (case create_collection e (trace w) of
        None \<Rightarrow> (Inr (), log_event CreateCollection Returned w)
      | Some ResourceAlreadyExistsException \<Rightarrow>
          (Inr (), log_event CreateCollection (Raised ResourceAlreadyExistsException) w)
      | Some x \<Rightarrow> (Inl x, log_event CreateCollection (Raised x) w))"

definition file_hash :: "env \<Rightarrow> world \<Rightarrow> string \<Rightarrow> exn + string" where
  "file_hash e w path =
     (case read_file w path of Inl x \<Rightarrow> Inl x | Inr buf \<Rightarrow> Inr (md5_hexdigest e buf))"

definition upload_to_s3 :: "env \<Rightarrow> string \<Rightarrow> string \<Rightarrow> world \<Rightarrow> (exn + unit) \<times> world" where
  "upload_to_s3 e file_path filename w =
     (case upload_file e (trace w) file_path filename of
        None \<Rightarrow> (Inr (), log_event (UploadFile file_path filename) Returned w)
      | Some x \<Rightarrow> (Inl x, log_event (UploadFile file_path filename) (Raised x) w))"

subsection \<open>Indexing only what is new\<close>

text \<open>
  The loop of \<^verbatim>\<open>index_faces_if_new\<close>, one path at a time with the cache in hand. A file
  without an image extension and a file whose fingerprint is cached are passed over; an
  error of the index call is caught and nothing is recorded; an error of
  \<^verbatim>\<open>file_hash\<close> is outside the \<^verbatim>\<open>try\<close> and ends the loop.
\<close>

fun index_loop ::
  "env \<Rightarrow> string list \<Rightarrow> (string \<times> string) list \<Rightarrow> world
   \<Rightarrow> (exn + (string \<times> string) list) \<times> world" where
  "index_loop e [] cache w = (Inr cache, w)"
| "index_loop e (path # rest) cache w =
     (let filename = os_path_basename path in
      if \<not> has_image_extension filename then index_loop e rest cache w
      else
        (case file_hash e w path of
           Inl x \<Rightarrow> (Inl x, w)
         | Inr img_hash \<Rightarrow>
             if img_hash \<in> fst ` set cache then index_loop e rest cache w
             else
               (case index_faces e (trace w) filename of
                  None \<Rightarrow>
                    index_loop e rest (AList.update img_hash filename cache)
                      (log_event (IndexFaces filename) Returned w)
                | Some x \<Rightarrow>
                    index_loop e rest cache
                      (log_event (IndexFaces filename) (Raised x) w))))"

definition index_faces_if_new :: "env \<Rightarrow> string list \<Rightarrow> world \<Rightarrow> (exn + unit) \<times> world" where
  "index_faces_if_new e filepaths w =
     (case load_cache w of
        Inl x \<Rightarrow> (Inl x, w)
      | Inr cache \<Rightarrow>
          (case index_loop e filepaths cache w of
             (Inl x, w') \<Rightarrow> (Inl x, w')
           | (Inr cache', w') \<Rightarrow> (Inr (), save_cache cache' w')))"

subsection \<open>The upload view\<close>

text \<open>The first loop of \<^verbatim>\<open>upload_images\<close>: write each gallery file under the upload
  folder, mirror it to the bucket, remember its path. An upload error leaves the loop.\<close>

fun save_gallery ::
  "env \<Rightarrow> uploaded_file list \<Rightarrow> string list \<Rightarrow> world \<Rightarrow> (exn + string list) \<times> world" where
  "save_gallery e [] saved_gallery_paths w = (Inr saved_gallery_paths, w)"
| "save_gallery e (file # rest) saved_gallery_paths w =
     (let filename = name file;
          path = os_path_join (UPLOAD_FOLDER e) filename;
          w1 = write_file path (chunks file) w
      in case upload_to_s3 e path filename w1 of
           (Inl x, w2) \<Rightarrow> (Inl x, w2)
         | (Inr u, w2) \<Rightarrow> save_gallery e rest (saved_gallery_paths @ [path]) w2)"

definition fallback_url :: "env \<Rightarrow> string \<Rightarrow> string" where
  "fallback_url e key =
     ''https://'' @ BUCKET_NAME e @ ''.s3.'' @ AWS_REGION e @ ''.amazonaws.com/'' @ key"

text \<open>The loop that builds \<^verbatim>\<open>image_urls\<close>: a presign error is caught and the
  fallback URL is taken.\<close>

fun presign_loop :: "env \<Rightarrow> string list \<Rightarrow> string list \<Rightarrow> world \<Rightarrow> string list \<times> world" where
  "presign_loop e [] image_urls w = (image_urls, w)"
| "presign_loop e (key # rest) image_urls w =
     (case generate_presigned_url e (trace w) key of
        Inr url \<Rightarrow>
          presign_loop e rest (image_urls @ [url]) (log_event (GeneratePresignedUrl key) (Url url) w)
      | Inl x \<Rightarrow>
          presign_loop e rest (image_urls @ [fallback_url e key])
            (log_event (GeneratePresignedUrl key) (Raised x) w))"

text \<open>The sweep: every entry the folder lists is removed.\<close>

definition cleanup :: "env \<Rightarrow> world \<Rightarrow> world" where
  "cleanup e w =
     fold (\<lambda>f. os_remove (os_path_join (UPLOAD_FOLDER e) f)) (listdir w (UPLOAD_FOLDER e)) w"

text \<open>\<^verbatim>\<open>not reference_file\<close>: no file, or a file whose name is empty.\<close>

definition missing :: "uploaded_file option \<Rightarrow> bool" where
  "missing reference_file = (case reference_file of None \<Rightarrow> True | Some f \<Rightarrow> name f = [])"

text \<open>From the search to the response, given the saved paths and the reference path.\<close>

definition search_and_respond ::
  "env \<Rightarrow> string list \<Rightarrow> string \<Rightarrow> world \<Rightarrow> (exn + response) \<times> world" where
  "search_and_respond e saved_gallery_paths ref_path w =
     (let current_upload_filenames = map os_path_basename saved_gallery_paths in
      case read_file w ref_path of
        Inl x \<Rightarrow> (Inl x, w)
      | Inr ref_img \<Rightarrow>
          (case search_faces_by_image e (trace w) ref_img of
             Inl x \<Rightarrow> (Inl x, log_event (SearchFacesByImage ref_img) (Raised x) w)
           | Inr all_matches \<Rightarrow>
               (let w1 = log_event (SearchFacesByImage ref_img) (FaceMatches all_matches) w;
                    current_batch_matches =
                      filter (\<lambda>m. m \<in> set current_upload_filenames) all_matches;
                    (image_urls, w2) = presign_loop e current_batch_matches [] w1;
                    w3 = cleanup e w2
                in (Inr (JsonResponse (Matches image_urls current_batch_matches) 200), w3))))"

definition upload_images :: "env \<Rightarrow> request \<Rightarrow> world \<Rightarrow> (exn + response) \<times> world" where
  "upload_images e req w =
     (if request_method req \<noteq> ''POST'' then
        (Inr (JsonResponse (ErrorMessage ''Invalid request'') 400), w)
      else
        (case ensure_collection_exists e w of
           (Inl x, w1) \<Rightarrow> (Inl x, w1)
         | (Inr u, w1) \<Rightarrow>
             (let gallery_files = gallery_images req;
                  reference_file = reference_image req
              in if gallery_files = [] \<or> missing reference_file then
                   (Inr (JsonResponse (ErrorMessage ''Missing files'') 400), w1)
                 else
                   (case save_gallery e gallery_files [] w1 of
                      (Inl x, w2) \<Rightarrow> (Inl x, w2)
                    | (Inr saved_gallery_paths, w2) \<Rightarrow>
                        (let ref_name = name (the reference_file);
                             ref_path = os_path_join (UPLOAD_FOLDER e) ref_name;
                             w3 = write_file ref_path (chunks (the reference_file)) w2
                         in case index_faces_if_new e saved_gallery_paths w3 of
                              (Inl x, w4) \<Rightarrow> (Inl x, w4)
                            | (Inr u', w4) \<Rightarrow>
                                search_and_respond e saved_gallery_paths ref_path w4)))))"

subsection \<open>The archive view\<close>

text \<open>
  \<^verbatim>\<open>ZipFile.writestr\<close> with a name and bytes. \<^verbatim>\<open>ZipInfo\<close> ends the name at its
  first null character. An empty name raises where the library looks at its last
  character; a name of more than 65535 bytes does not fit the length field of the entry
  header and raises when the header is packed. Otherwise the entry is appended, also
  when the archive has an entry of that name already.
\<close>

definition sanitize_filename :: "string \<Rightarrow> string" where
  "sanitize_filename filename = takeWhile (\<lambda>c. c \<noteq> CHR 0x00) filename"

definition writestr ::
  "env \<Rightarrow> string \<Rightarrow> bytes \<Rightarrow> (string \<times> bytes) list \<Rightarrow> exn + (string \<times> bytes) list" where
  "writestr e zinfo_or_arcname data zf =
     (let filename = sanitize_filename zinfo_or_arcname in
      if filename = [] \<and> \<not> zip_takes_empty_name e then Inl IndexError
      else if 65535 < length filename then Inl StructError
      else Inr (zf @ [(filename, data)]))"

text \<open>The loop of \<^verbatim>\<open>download_zip\<close>: a key whose fetch raises is passed over, and so
  is a key whose entry cannot be written; the others are written to the archive.\<close>

fun zip_loop ::
  "env \<Rightarrow> string list \<Rightarrow> (string \<times> bytes) list \<Rightarrow> world \<Rightarrow> (string \<times> bytes) list \<times> world" where
  "zip_loop e [] zf w = (zf, w)"
| "zip_loop e (key # rest) zf w =
     (case get_object e (trace w) key of
        Inr content \<Rightarrow>
          (case writestr e key content zf of
             Inr zf' \<Rightarrow> zip_loop e rest zf' (log_event (GetObject key) (Body content) w)
           | Inl x \<Rightarrow> zip_loop e rest zf (log_event (GetObject key) (Body content) w))
      | Inl x \<Rightarrow> zip_loop e rest zf (log_event (GetObject key) (Raised x) w))"

definition download_zip :: "env \<Rightarrow> request \<Rightarrow> world \<Rightarrow> (exn + response) \<times> world" where
  "download_zip e req w =
     (if request_method req \<noteq> ''POST'' then
        (Inr (JsonResponse (ErrorMessage ''Invalid request'') 400), w)
      else
        (case body req of
           InvalidJSON \<Rightarrow> (Inr (JsonResponse (ErrorMessage ''Invalid JSON'') 400), w)
         | Keys keys \<Rightarrow>
             if keys = [] then (Inr (JsonResponse (ErrorMessage ''No keys provided'') 400), w)
             else
               (let (zf, w1) = zip_loop e keys [] w
                in (Inr (FileResponse zf ''application/zip'' ''attachment; filename=matches.zip''), w1))))"

subsection \<open>Reading the trace\<close>

text \<open>The events a view added to the world it was given.\<close>

definition events_since :: "world \<Rightarrow> world \<Rightarrow> event list" where
  "events_since w w' = drop (length (trace w)) (trace w')"

fun is_upload :: "call \<Rightarrow> bool" where
  "is_upload (UploadFile p k) = True"
| "is_upload c = False"

fun is_index :: "call \<Rightarrow> bool" where
  "is_index (IndexFaces n) = True"
| "is_index c = False"

fun is_presign :: "call \<Rightarrow> bool" where
  "is_presign (GeneratePresignedUrl k) = True"
| "is_presign c = False"

text \<open>What the searches among the events returned: \<^verbatim>\<open>all_matches\<close> of the request
  when the events are those of one upload request, which searches once.\<close>

fun face_matches :: "event \<Rightarrow> string list" where
  "face_matches (SearchFacesByImage b, FaceMatches ms) = ms"
| "face_matches ev = []"

definition all_matches_of :: "event list \<Rightarrow> string list" where
  "all_matches_of evs = concat (map face_matches evs)"

definition presign_events :: "event list \<Rightarrow> event list" where
  "presign_events evs = filter (\<lambda>ev. is_presign (fst ev)) evs"

text \<open>The URL the upload view takes from a presign call: the one returned, or the
  fallback for the same key when the call raised.\<close>

fun retrieval_url :: "env \<Rightarrow> event \<Rightarrow> string list" where
  "retrieval_url e (GeneratePresignedUrl k, Url u) = [u]"
| "retrieval_url e (GeneratePresignedUrl k, Raised x) = [fallback_url e k]"
| "retrieval_url e ev = []"

text \<open>The key and the bytes of a fetch that returned.\<close>

fun fetched :: "event \<Rightarrow> (string \<times> bytes) list" where
  "fetched (GetObject k, Body b) = [(k, b)]"
| "fetched ev = []"

fun fetch_succeeded :: "reply \<Rightarrow> bool" where
  "fetch_succeeded (Body b) = True"
| "fetch_succeeded r = False"

fun body_of :: "reply \<Rightarrow> bytes" where
  "body_of (Body b) = b"
| "body_of r = []"

text \<open>Whether the archive takes an entry for a key, and what a fetch contributes to
  the archive: the entry \<^verbatim>\<open>writestr\<close> appends, if it appends one.\<close>

definition accepts_name :: "env \<Rightarrow> string \<Rightarrow> bool" where
  "accepts_name e key =
     ((sanitize_filename key \<noteq> [] \<or> zip_takes_empty_name e)
      \<and> length (sanitize_filename key) \<le> 65535)"

definition zip_entry :: "env \<Rightarrow> string \<Rightarrow> bytes \<Rightarrow> (string \<times> bytes) list" where
  "zip_entry e key data = (case writestr e key data [] of Inl x \<Rightarrow> [] | Inr zf \<Rightarrow> zf)"

fun archived :: "env \<Rightarrow> event \<Rightarrow> (string \<times> bytes) list" where
  "archived e (GetObject k, Body b) = zip_entry e k b"
| "archived e ev = []"

text \<open>A key that is its own entry name: not empty, without null character, and short
  enough for the entry header.\<close>

definition plain_key :: "string \<Rightarrow> bool" where
  "plain_key key = (key \<noteq> [] \<and> CHR 0x00 \<notin> set key \<and> length key \<le> 65535)"

text \<open>\<^verbatim>\<open>current_upload_filenames\<close> of a request, as the view computes it from the saved
  paths.\<close>

definition current_upload_filenames :: "env \<Rightarrow> request \<Rightarrow> string list" where
  "current_upload_filenames e req =
     map os_path_basename
       (map (\<lambda>file. os_path_join (UPLOAD_FOLDER e) (name file)) (gallery_images req))"

text \<open>
  A name as the framework hands it over: not empty and without a directory part. The
  files of a request, and the paths the upload view writes them to.
\<close>

definition plain_name :: "string \<Rightarrow> bool" where
  "plain_name n = (n \<noteq> [] \<and> CHR ''/'' \<notin> set n)"

definition request_files :: "request \<Rightarrow> uploaded_file list" where
  "request_files req =
     gallery_images req @ (case reference_image req of None \<Rightarrow> [] | Some f \<Rightarrow> [f])"

definition scratch_paths :: "env \<Rightarrow> request \<Rightarrow> string list" where
  "scratch_paths e req =
     map (\<lambda>file. os_path_join (UPLOAD_FOLDER e) (name file)) (request_files req)"

subsection \<open>A concrete environment and concrete requests\<close>

text \<open>
  An environment to run the views in. The collection is created by the first call and
  exists afterwards; indexing \<^verbatim>\<open>c.jpg\<close> fails; the search returns one identifier twice
  and one of an earlier request; presigning \<^verbatim>\<open>b.jpg\<close> fails; only \<^verbatim>\<open>a.jpg\<close> can be
  fetched. The digest is a stand-in that is injective.
\<close>

definition env0 :: env where
  "env0 = \<lparr>
     BASE_DIR = ''/srv/app'',
     BUCKET_NAME = ''gallery'',
     AWS_REGION = ''eu-west-1'',
     md5_hexdigest = (\<lambda>buf. ''md5:'' @ buf),
     create_collection = (\<lambda>tr. if tr = [] then None else Some ResourceAlreadyExistsException),
     upload_file = (\<lambda>tr p k. None),
     index_faces = (\<lambda>tr n. if n = ''c.jpg'' then Some (ClientError ''InvalidImageFormat'') else None),
     search_faces_by_image = (\<lambda>tr b. Inr [''a.jpg'', ''old.jpg'', ''b.jpg'', ''a.jpg'']),
     generate_presigned_url =
       (\<lambda>tr k. if k = ''b.jpg'' then Inl (ClientError ''NoCredentials'') else Inr (''https://signed/'' @ k)),
     get_object = (\<lambda>tr k. if k = ''a.jpg'' then Inr ''AAA'' else Inl (ClientError ''NoSuchKey'')),
     zip_takes_empty_name = False
   \<rparr>"

text \<open>The same environment with a search that raises, and with a collection call that
  raises.\<close>

definition env_search_down :: env where
  "env_search_down = env0\<lparr>search_faces_by_image := (\<lambda>tr b. Inl (ClientError ''Throttling''))\<rparr>"

definition env_collection_down :: env where
  "env_collection_down = env0\<lparr>create_collection := (\<lambda>tr. Some (ClientError ''AccessDenied''))\<rparr>"


definition env_every_key :: env where
  "env_every_key = env0\<lparr>get_object := (\<lambda>tr k. Inr ''AAA'')\<rparr>"

definition world0 :: world where
  "world0 = \<lparr>files = [], cache_file = None, trace = []\<rparr>"

definition world_corrupt :: world where
  "world_corrupt = \<lparr>files = [], cache_file = Some (Malformed ''{not json''), trace = []\<rparr>"

text \<open>Three gallery files, the second with the bytes of the first, and a reference.\<close>

definition upload_request :: request where
  "upload_request = \<lparr>
     request_method = ''POST'',
     gallery_images =
       [\<lparr>name = ''a.jpg'', chunks = ''AAA''\<rparr>, \<lparr>name = ''b.jpg'', chunks = ''AAA''\<rparr>,
        \<lparr>name = ''c.jpg'', chunks = ''CCC''\<rparr>],
     reference_image = Some \<lparr>name = ''ref.png'', chunks = ''RRR''\<rparr>,
     body = InvalidJSON
   \<rparr>"

definition request_without_reference :: request where
  "request_without_reference = upload_request\<lparr>reference_image := None\<rparr>"

text \<open>The world the upload view leaves when it has served \<open>upload_request\<close> in
  \<open>env0\<close> from \<open>world0\<close>.\<close>

definition world_after_upload :: world where
  "world_after_upload = \<lparr>
     files = [],
     cache_file = Some (JSONObject [(''md5:AAA'', ''a.jpg'')]),
     trace =
       [(CreateCollection, Returned),
        (UploadFile ''/srv/app/uploads/a.jpg'' ''a.jpg'', Returned),
        (UploadFile ''/srv/app/uploads/b.jpg'' ''b.jpg'', Returned),
        (UploadFile ''/srv/app/uploads/c.jpg'' ''c.jpg'', Returned),
        (IndexFaces ''a.jpg'', Returned),
        (IndexFaces ''c.jpg'', Raised (ClientError ''InvalidImageFormat'')),
        (SearchFacesByImage ''RRR'', FaceMatches [''a.jpg'', ''old.jpg'', ''b.jpg'', ''a.jpg'']),
        (GeneratePresignedUrl ''a.jpg'', Url ''https://signed/a.jpg''),
        (GeneratePresignedUrl ''b.jpg'', Raised (ClientError ''NoCredentials'')),
        (GeneratePresignedUrl ''a.jpg'', Url ''https://signed/a.jpg'')]
   \<rparr>"



definition zip_request :: request where
  "zip_request = \<lparr>
     request_method = ''POST'', gallery_images = [], reference_image = None,
     body = Keys [''a.jpg'', ''gone.jpg'', ''a.jpg'']
   \<rparr>"

text \<open>A download request with a key that has a null character after its first letter.\<close>

definition nul_key :: string where
  "nul_key = [CHR ''a'', CHR 0x00, CHR ''b'', CHR ''.'', CHR ''j'', CHR ''p'', CHR ''g'']"

definition zip_request_nul :: request where
  "zip_request_nul = zip_request\<lparr>body := Keys [nul_key]\<rparr>"

lemma basename_no_slash: "CHR ''/'' \<notin> set n \<Longrightarrow> os_path_basename n = n"
proof -
  assume "CHR ''/'' \<notin> set n"
  then have "takeWhile (\<lambda>c. c \<noteq> CHR ''/'') (rev n) = rev n"
    by (auto simp: takeWhile_eq_all_conv)
  then show ?thesis unfolding os_path_basename_def by (simp only: rev_rev_ident)
qed

lemma takeWhile_rev_slash:
  "takeWhile (\<lambda>c. c \<noteq> CHR ''/'') (rev b @ CHR ''/'' # ys) = takeWhile (\<lambda>c. c \<noteq> CHR ''/'') (rev b)"
proof (cases "CHR ''/'' \<in> set b")
  case True
  then have "CHR ''/'' \<in> set (rev b)" by simp
  then have "takeWhile (\<lambda>c. c \<noteq> CHR ''/'') (rev b @ CHR ''/'' # ys)
      = takeWhile (\<lambda>c. c \<noteq> CHR ''/'') (rev b)"
    by (rule takeWhile_append1) simp
  then show ?thesis .
next
  case False
  then have all: "\<And>x. x \<in> set (rev b) \<Longrightarrow> x \<noteq> CHR ''/''" by auto
  have "takeWhile (\<lambda>c. c \<noteq> CHR ''/'') (rev b @ CHR ''/'' # ys)
      = rev b @ takeWhile (\<lambda>c. c \<noteq> CHR ''/'') (CHR ''/'' # ys)"
    by (rule takeWhile_append2) (rule all)
  moreover have "takeWhile (\<lambda>c. c \<noteq> CHR ''/'') (CHR ''/'' # ys) = []"
    by simp
  moreover have "takeWhile (\<lambda>c. c \<noteq> CHR ''/'') (rev b) = rev b"
    using all by (auto simp: takeWhile_eq_all_conv)
  ultimately show ?thesis by (simp only: append_Nil2)
qed

lemma basename_join: "os_path_basename (os_path_join a b) = os_path_basename b"
proof -
  consider (abs) "b \<noteq> [] \<and> hd b = CHR ''/''"
    | (empty) "\<not> (b \<noteq> [] \<and> hd b = CHR ''/'')" "a = []"
    | (slash) "\<not> (b \<noteq> [] \<and> hd b = CHR ''/'')" "a \<noteq> []" "last a = CHR ''/''"
    | (plain) "\<not> (b \<noteq> [] \<and> hd b = CHR ''/'')" "a \<noteq> []" "last a \<noteq> CHR ''/''"
    by blast
  then show ?thesis
  proof cases
    case abs
    then show ?thesis by (simp add: os_path_join_def)
  next
    case empty
    then show ?thesis by (simp add: os_path_join_def)
  next
    case slash
    then obtain a' where "a = a' @ [CHR ''/'']"
      by (metis append_butlast_last_id)
    with slash show ?thesis
      by (simp add: os_path_join_def os_path_basename_def takeWhile_rev_slash)
  next
    case plain
    then show ?thesis
      by (simp add: os_path_join_def os_path_basename_def takeWhile_rev_slash)
  qed
qed

lemma upload_folder_shape: "UPLOAD_FOLDER e \<noteq> [] \<and> last (UPLOAD_FOLDER e) \<noteq> CHR ''/''"
  by (simp add: UPLOAD_FOLDER_def os_path_join_def)

lemma join_entry:
  assumes "d \<noteq> []" "last d \<noteq> CHR ''/''" "entry_of d p"
  shows "os_path_join d (drop (Suc (length d)) p) = p"
proof -
  let ?n = "drop (Suc (length d)) p"
  from assms(3) have n: "?n \<noteq> []" "CHR ''/'' \<notin> set ?n" and t: "take (Suc (length d)) p = d @ ''/''"
    by (simp_all add: entry_of_def)
  from n have "hd ?n \<noteq> CHR ''/''"
    by (metis hd_in_set)
  with assms(1,2) n have "os_path_join d ?n = d @ CHR ''/'' # ?n"
    by (simp add: os_path_join_def)
  also have "\<dots> = take (Suc (length d)) p @ ?n" using t by simp
  also have "\<dots> = p" by (rule append_take_drop_id)
  finally show ?thesis .
qed

lemma files_fold_remove:
  "files (fold (\<lambda>f. os_remove (g f)) fs w) = filter (\<lambda>kv. fst kv \<notin> g ` set fs) (files w)"
proof (induction fs arbitrary: w)
  case Nil
  then show ?case by simp
next
  case (Cons f fs)
  have "files (os_remove (g f) w) = filter (\<lambda>kv. fst kv \<noteq> g f) (files w)"
    by (auto simp: os_remove_def AList.delete_eq case_prod_unfold intro: filter_cong)
  with Cons show ?case by (auto intro: filter_cong)
qed

lemma trace_fold_remove: "trace (fold (\<lambda>f. os_remove (g f)) fs w) = trace w"
  by (induction fs arbitrary: w) (simp_all add: os_remove_def)

lemma cache_fold_remove: "cache_file (fold (\<lambda>f. os_remove (g f)) fs w) = cache_file w"
  by (induction fs arbitrary: w) (simp_all add: os_remove_def)

lemma listdir_cleanup: "listdir (cleanup e w) (UPLOAD_FOLDER e) = []"
proof -
  let ?d = "UPLOAD_FOLDER e"
  have shape: "?d \<noteq> []" "last ?d \<noteq> CHR ''/''" using upload_folder_shape by simp_all
  have "\<not> entry_of ?d p" if "p \<in> fst ` set (files (cleanup e w))" for p
  proof
    assume en: "entry_of ?d p"
    from that have inw: "p \<in> fst ` set (files w)"
      and notin: "p \<notin> os_path_join ?d ` set (listdir w ?d)"
      by (auto simp: cleanup_def files_fold_remove)
    from inw en have "drop (Suc (length ?d)) p \<in> set (listdir w ?d)"
      by (auto simp: listdir_def)
    then have "os_path_join ?d (drop (Suc (length ?d)) p) \<in> os_path_join ?d ` set (listdir w ?d)"
      by (rule imageI)
    with join_entry [OF shape en] notin show False by simp
  qed
  then show ?thesis
    by (auto simp: listdir_def filter_empty_conv)
qed

lemma trace_cleanup: "trace (cleanup e w) = trace w"
  by (simp add: cleanup_def trace_fold_remove)

lemma cache_cleanup: "cache_file (cleanup e w) = cache_file w"
  by (simp add: cleanup_def cache_fold_remove)

lemma log_event_simps:
  "files (log_event c r w) = files w"
  "cache_file (log_event c r w) = cache_file w"
  "trace (log_event c r w) = trace w @ [(c, r)]"
  by (simp_all add: log_event_def)

lemma write_file_simps:
  "cache_file (write_file p b w) = cache_file w"
  "trace (write_file p b w) = trace w"
  by (simp_all add: write_file_def)

lemma upload_to_s3_trace:
  "upload_to_s3 e p k w = (r, w') \<Longrightarrow>
     files w' = files w \<and> cache_file w' = cache_file w
     \<and> (\<exists>rep. trace w' = trace w @ [(UploadFile p k, rep)])"
  by (auto simp: upload_to_s3_def log_event_simps split: option.splits)

lemma save_gallery_result:
  "save_gallery e fs acc w = (Inr paths, w') \<Longrightarrow>
     paths = acc @ map (\<lambda>f. os_path_join (UPLOAD_FOLDER e) (name f)) fs
     \<and> cache_file w' = cache_file w
     \<and> (\<exists>ups. trace w' = trace w @ ups \<and> (\<forall>ev\<in>set ups. is_upload (fst ev)))"
proof (induction fs arbitrary: acc w)
  case Nil
  then show ?case by simp
next
  case (Cons f fs)
  let ?p = "os_path_join (UPLOAD_FOLDER e) (name f)"
  let ?w1 = "write_file ?p (chunks f) w"
  obtain r w2 where up: "upload_to_s3 e ?p (name f) ?w1 = (r, w2)"
    by (cases "upload_to_s3 e ?p (name f) ?w1")
  with Cons.prems obtain u where r: "r = Inr u"
    by (cases r) (simp_all add: Let_def)
  with Cons.prems up have rest: "save_gallery e fs (acc @ [?p]) w2 = (Inr paths, w')"
    by (simp add: Let_def)
  from upload_to_s3_trace [OF up] obtain rep where
    t2: "trace w2 = trace w @ [(UploadFile ?p (name f), rep)]" and c2: "cache_file w2 = cache_file w"
    by (auto simp: write_file_simps)
  from Cons.IH [OF rest] obtain ups where
    "paths = (acc @ [?p]) @ map (\<lambda>f. os_path_join (UPLOAD_FOLDER e) (name f)) fs"
    "cache_file w' = cache_file w2"
    "trace w' = trace w2 @ ups" "\<forall>ev\<in>set ups. is_upload (fst ev)"
    by blast
  with t2 c2 show ?case
    by (intro conjI exI [where x = "(UploadFile ?p (name f), rep) # ups"]) simp_all
qed

lemma index_loop_trace:
  "index_loop e ps cache w = (r, w') \<Longrightarrow>
     files w' = files w \<and> cache_file w' = cache_file w
     \<and> (\<exists>idx. trace w' = trace w @ idx \<and> (\<forall>ev\<in>set idx. is_index (fst ev)))"
proof (induction e ps cache w rule: index_loop.induct)
  case (1 e cache w)
  then show ?case by simp
next
  case (2 e path rest cache w)
  let ?fn = "os_path_basename path"
  show ?case
  proof (cases "has_image_extension ?fn")
    case False
    with "2.prems" "2.IH"(1) show ?thesis by simp
  next
    case ext: True
    show ?thesis
    proof (cases "file_hash e w path")
      case (Inl x)
      with ext "2.prems" show ?thesis by auto
    next
      case (Inr h)
      show ?thesis
      proof (cases "h \<in> fst ` set cache")
        case True
        with ext Inr "2.prems" "2.IH"(2) show ?thesis by simp
      next
        case new: False
        show ?thesis
        proof (cases "index_faces e (trace w) ?fn")
          case None
          with ext Inr new "2.prems"
          have "index_loop e rest (AList.update h ?fn cache) (log_event (IndexFaces ?fn) Returned w) = (r, w')"
            by (simp add: Let_def)
          from "2.IH"(3) [OF refl _ Inr new None this] ext obtain idx where
            "files w' = files w" "cache_file w' = cache_file w"
            "trace w' = trace w @ (IndexFaces ?fn, Returned) # idx" "\<forall>ev\<in>set idx. is_index (fst ev)"
            by (auto simp: log_event_simps)
          then show ?thesis
            by (intro conjI exI [where x = "(IndexFaces ?fn, Returned) # idx"]) simp_all
        next
          case (Some x)
          with ext Inr new "2.prems"
          have "index_loop e rest cache (log_event (IndexFaces ?fn) (Raised x) w) = (r, w')"
            by (simp add: Let_def)
          from "2.IH"(4) [OF refl _ Inr new Some this] ext obtain idx where
            "files w' = files w" "cache_file w' = cache_file w"
            "trace w' = trace w @ (IndexFaces ?fn, Raised x) # idx" "\<forall>ev\<in>set idx. is_index (fst ev)"
            by (auto simp: log_event_simps)
          then show ?thesis
            by (intro conjI exI [where x = "(IndexFaces ?fn, Raised x) # idx"]) simp_all
        qed
      qed
    qed
  qed
qed

lemma index_faces_if_new_trace:
  assumes "index_faces_if_new e ps w = (r, w')"
  shows "files w' = files w \<and> (\<exists>idx. trace w' = trace w @ idx \<and> (\<forall>ev\<in>set idx. is_index (fst ev)))"
proof (cases "load_cache w")
  case (Inl x)
  with assms show ?thesis by (auto simp: index_faces_if_new_def)
next
  case (Inr cache)
  obtain r1 w1 where l: "index_loop e ps cache w = (r1, w1)"
    by (cases "index_loop e ps cache w")
  from index_loop_trace [OF l] obtain idx where
    i: "files w1 = files w" "trace w1 = trace w @ idx" "\<forall>ev\<in>set idx. is_index (fst ev)"
    by blast
  from assms Inr l have "files w' = files w1 \<and> trace w' = trace w1"
    by (cases r1) (auto simp: index_faces_if_new_def save_cache_def)
  with i show ?thesis by auto
qed

lemma presign_loop_result:
  "presign_loop e ks acc w = (urls, w') \<Longrightarrow>
     files w' = files w \<and> cache_file w' = cache_file w
     \<and> (\<exists>pes us. trace w' = trace w @ pes \<and> urls = acc @ us
           \<and> map fst pes = map GeneratePresignedUrl ks
           \<and> map (retrieval_url e) pes = map (\<lambda>u. [u]) us)"
proof (induction ks arbitrary: acc w)
  case Nil
  then show ?case by simp
next
  case (Cons k ks)
  show ?case
  proof (cases "generate_presigned_url e (trace w) k")
    case (Inr url)
    with Cons.prems
    have "presign_loop e ks (acc @ [url]) (log_event (GeneratePresignedUrl k) (Url url) w) = (urls, w')"
      by simp
    from Cons.IH [OF this] obtain pes us where
      "files w' = files w" "cache_file w' = cache_file w"
      "trace w' = trace w @ (GeneratePresignedUrl k, Url url) # pes" "urls = acc @ url # us"
      "map fst pes = map GeneratePresignedUrl ks" "map (retrieval_url e) pes = map (\<lambda>u. [u]) us"
      by (auto simp: log_event_simps)
    then show ?thesis
      by (intro conjI exI [where x = "(GeneratePresignedUrl k, Url url) # pes"] exI [where x = "url # us"])
        simp_all
  next
    case (Inl x)
    with Cons.prems
    have "presign_loop e ks (acc @ [fallback_url e k]) (log_event (GeneratePresignedUrl k) (Raised x) w) = (urls, w')"
      by simp
    from Cons.IH [OF this] obtain pes us where
      "files w' = files w" "cache_file w' = cache_file w"
      "trace w' = trace w @ (GeneratePresignedUrl k, Raised x) # pes" "urls = acc @ fallback_url e k # us"
      "map fst pes = map GeneratePresignedUrl ks" "map (retrieval_url e) pes = map (\<lambda>u. [u]) us"
      by (auto simp: log_event_simps)
    then show ?thesis
      by (intro conjI exI [where x = "(GeneratePresignedUrl k, Raised x) # pes"]
            exI [where x = "fallback_url e k # us"]) simp_all
  qed
qed

lemma search_and_respond_200:
  assumes "search_and_respond e paths ref w = (Inr (JsonResponse (Matches urls ks) st), w')"
  shows "\<exists>b ms pes. trace w' = trace w @ (SearchFacesByImage b, FaceMatches ms) # pes
           \<and> ks = filter (\<lambda>m. m \<in> set (map os_path_basename paths)) ms
           \<and> map fst pes = map GeneratePresignedUrl ks
           \<and> map (retrieval_url e) pes = map (\<lambda>u. [u]) urls
           \<and> listdir w' (UPLOAD_FOLDER e) = []"
proof -
  from assms obtain b where b: "read_file w ref = Inr b"
    by (cases "read_file w ref") (simp_all add: search_and_respond_def)
  with assms obtain ms where ms: "search_faces_by_image e (trace w) b = Inr ms"
    by (cases "search_faces_by_image e (trace w) b") (simp_all add: search_and_respond_def)
  let ?w1 = "log_event (SearchFacesByImage b) (FaceMatches ms) w"
  let ?ks = "filter (\<lambda>m. m \<in> set (map os_path_basename paths)) ms"
  obtain us w2 where p: "presign_loop e ?ks [] ?w1 = (us, w2)"
    by (cases "presign_loop e ?ks [] ?w1")
  with assms b ms have res: "urls = us" "ks = ?ks" "w' = cleanup e w2"
    by (simp_all add: search_and_respond_def Let_def)
  from presign_loop_result [OF p] obtain pes where
    "trace w2 = trace w @ (SearchFacesByImage b, FaceMatches ms) # pes"
    "map fst pes = map GeneratePresignedUrl ?ks" "map (retrieval_url e) pes = map (\<lambda>u. [u]) us"
    by (auto simp: log_event_simps)
  with res show ?thesis
    by (intro exI [where x = b] exI [where x = ms] exI [where x = pes])
      (simp add: trace_cleanup listdir_cleanup)
qed

lemma ensure_collection_exists_trace:
  "ensure_collection_exists e w = (r, w') \<Longrightarrow>
     files w' = files w \<and> cache_file w' = cache_file w
     \<and> (\<exists>rep. trace w' = trace w @ [(CreateCollection, rep)])"
  by (auto simp: ensure_collection_exists_def log_event_simps split: option.splits exn.splits)

lemma events_since_append: "trace w' = trace w @ evs \<Longrightarrow> events_since w w' = evs"
  by (simp add: events_since_def)

lemma current_upload_filenames_eq:
  "current_upload_filenames e req = map (\<lambda>f. os_path_basename (name f)) (gallery_images req)"
  by (simp add: current_upload_filenames_def basename_join)

lemma upload_images_200:
  assumes "upload_images e req w = (Inr (JsonResponse (Matches urls ks) st), w')"
  shows "\<exists>rep ups idx b ms pes.
           events_since w w' = (CreateCollection, rep) # ups @ idx @ (SearchFacesByImage b, FaceMatches ms) # pes
           \<and> (\<forall>ev\<in>set ups. is_upload (fst ev))
           \<and> (\<forall>ev\<in>set idx. is_index (fst ev))
           \<and> ks = filter (\<lambda>m. m \<in> set (current_upload_filenames e req)) ms
           \<and> map fst pes = map GeneratePresignedUrl ks
           \<and> map (retrieval_url e) pes = map (\<lambda>u. [u]) urls
           \<and> listdir w' (UPLOAD_FOLDER e) = []"
proof -
  from assms have post: "request_method req = ''POST''"
    by (auto simp: upload_images_def split: if_splits)
  obtain r1 w1 where ens: "ensure_collection_exists e w = (r1, w1)"
    by (cases "ensure_collection_exists e w")
  from assms post ens obtain u where r1: "r1 = Inr u"
    by (cases r1) (simp_all add: upload_images_def)
  from assms post ens r1 have present: "\<not> (gallery_images req = [] \<or> missing (reference_image req))"
    by (auto simp: upload_images_def Let_def split: if_splits)
  obtain r2 w2 where sav: "save_gallery e (gallery_images req) [] w1 = (r2, w2)"
    by (cases "save_gallery e (gallery_images req) [] w1")
  from assms post ens r1 present sav obtain paths where r2: "r2 = Inr paths"
    by (cases r2) (simp_all add: upload_images_def Let_def)
  let ?ref = "os_path_join (UPLOAD_FOLDER e) (name (the (reference_image req)))"
  let ?w3 = "write_file ?ref (chunks (the (reference_image req))) w2"
  obtain r4 w4 where idx: "index_faces_if_new e paths ?w3 = (r4, w4)"
    by (cases "index_faces_if_new e paths ?w3")
  from assms post ens r1 present sav r2 idx obtain u' where r4: "r4 = Inr u'"
    by (cases r4) (simp_all add: upload_images_def Let_def)
  from assms post ens r1 present sav r2 idx r4
  have fin: "search_and_respond e paths ?ref w4 = (Inr (JsonResponse (Matches urls ks) st), w')"
    by (simp add: upload_images_def Let_def)
  from ensure_collection_exists_trace [OF ens] obtain rep where
    t1: "trace w1 = trace w @ [(CreateCollection, rep)]" by blast
  from save_gallery_result [OF sav [unfolded r2]] obtain ups where
    p: "paths = map (\<lambda>f. os_path_join (UPLOAD_FOLDER e) (name f)) (gallery_images req)"
    and t2: "trace w2 = trace w1 @ ups" and ups: "\<forall>ev\<in>set ups. is_upload (fst ev)"
    by auto
  from index_faces_if_new_trace [OF idx] obtain ixs where
    t4: "trace w4 = trace w2 @ ixs" and ixs: "\<forall>ev\<in>set ixs. is_index (fst ev)"
    by (auto simp: write_file_simps)
  from search_and_respond_200 [OF fin] obtain b ms pes where
    t5: "trace w' = trace w4 @ (SearchFacesByImage b, FaceMatches ms) # pes"
    and k: "ks = filter (\<lambda>m. m \<in> set (map os_path_basename paths)) ms"
    and rest: "map fst pes = map GeneratePresignedUrl ks"
      "map (retrieval_url e) pes = map (\<lambda>u. [u]) urls" "listdir w' (UPLOAD_FOLDER e) = []"
    by blast
  have "trace w' = trace w @ ((CreateCollection, rep) # ups @ ixs @ (SearchFacesByImage b, FaceMatches ms) # pes)"
    by (simp add: t1 t2 t4 t5)
  then have ev: "events_since w w' = (CreateCollection, rep) # ups @ ixs @ (SearchFacesByImage b, FaceMatches ms) # pes"
    by (rule events_since_append)
  from k p have k': "ks = filter (\<lambda>m. m \<in> set (current_upload_filenames e req)) ms"
    by (simp add: current_upload_filenames_def)
  from ev ups ixs k' rest show ?thesis by blast
qed

lemma no_matches_upload: "is_upload (fst ev) \<Longrightarrow> face_matches ev = []"
  by (cases ev rule: face_matches.cases) simp_all

lemma no_matches_index: "is_index (fst ev) \<Longrightarrow> face_matches ev = []"
  by (cases ev rule: face_matches.cases) simp_all

lemma all_matches_none: "(\<And>ev. ev \<in> set evs \<Longrightarrow> face_matches ev = []) \<Longrightarrow> all_matches_of evs = []"
  by (induction evs) (simp_all add: all_matches_of_def)

lemma all_matches_append: "all_matches_of (xs @ ys) = all_matches_of xs @ all_matches_of ys"
  by (simp add: all_matches_of_def)

lemma presign_calls_all:
  "map fst pes = map GeneratePresignedUrl ks \<Longrightarrow> ev \<in> set pes \<Longrightarrow> \<exists>k\<in>set ks. fst ev = GeneratePresignedUrl k"
proof (induction pes arbitrary: ks)
  case Nil
  then show ?case by simp
next
  case (Cons p pes)
  then show ?case by (cases ks) auto
qed

lemma presign_events_none: "(\<And>ev. ev \<in> set evs \<Longrightarrow> \<not> is_presign (fst ev)) \<Longrightarrow> presign_events evs = []"
  by (induction evs) (simp_all add: presign_events_def)

lemma presign_events_all: "(\<And>ev. ev \<in> set evs \<Longrightarrow> is_presign (fst ev)) \<Longrightarrow> presign_events evs = evs"
  by (induction evs) (simp_all add: presign_events_def)

lemma presign_events_append: "presign_events (xs @ ys) = presign_events xs @ presign_events ys"
  by (simp add: presign_events_def)

lemma not_presign_upload: "is_upload c \<Longrightarrow> \<not> is_presign c"
  by (cases c) simp_all

lemma not_presign_index: "is_index c \<Longrightarrow> \<not> is_presign c"
  by (cases c) simp_all

text \<open>The events of a successful upload request, read back.\<close>

lemma upload_images_events:
  assumes "upload_images e req w = (Inr (JsonResponse (Matches urls ks) st), w')"
  shows "ks = filter (\<lambda>m. m \<in> set (current_upload_filenames e req)) (all_matches_of (events_since w w'))
         \<and> map fst (presign_events (events_since w w')) = map GeneratePresignedUrl ks
         \<and> map (retrieval_url e) (presign_events (events_since w w')) = map (\<lambda>u. [u]) urls"
proof -
  from upload_images_200 [OF assms] obtain rep ups idx b ms pes where
    ev: "events_since w w' = (CreateCollection, rep) # ups @ idx @ (SearchFacesByImage b, FaceMatches ms) # pes"
    and ups: "\<forall>ev\<in>set ups. is_upload (fst ev)" and idx: "\<forall>ev\<in>set idx. is_index (fst ev)"
    and ks: "ks = filter (\<lambda>m. m \<in> set (current_upload_filenames e req)) ms"
    and pk: "map fst pes = map GeneratePresignedUrl ks"
    and pu: "map (retrieval_url e) pes = map (\<lambda>u. [u]) urls"
    by blast
  have pes: "is_presign (fst ev)" if "ev \<in> set pes" for ev
    using presign_calls_all [OF pk that] by auto
  have m1: "all_matches_of ups = []"
    using ups by (intro all_matches_none no_matches_upload) simp
  have m2: "all_matches_of idx = []"
    using idx by (intro all_matches_none no_matches_index) simp
  have m3: "all_matches_of pes = []"
  proof (rule all_matches_none)
    fix ev assume "ev \<in> set pes"
    from presign_calls_all [OF pk this] show "face_matches ev = []"
      by (cases ev) auto
  qed
  have "all_matches_of (events_since w w')
      = all_matches_of [(CreateCollection, rep)] @ all_matches_of ups @ all_matches_of idx
        @ all_matches_of [(SearchFacesByImage b, FaceMatches ms)] @ all_matches_of pes"
    unfolding ev by (simp only: all_matches_append [symmetric]) simp
  then have am: "all_matches_of (events_since w w') = ms"
    by (simp add: m1 m2 m3) (simp add: all_matches_of_def)
  have p1: "presign_events ups = []"
    using ups by (intro presign_events_none not_presign_upload) simp
  have p2: "presign_events idx = []"
    using idx by (intro presign_events_none not_presign_index) simp
  have p3: "presign_events pes = pes"
    using pes by (rule presign_events_all)
  have "presign_events (events_since w w')
      = presign_events [(CreateCollection, rep)] @ presign_events ups @ presign_events idx
        @ presign_events [(SearchFacesByImage b, FaceMatches ms)] @ presign_events pes"
    unfolding ev by (simp only: presign_events_append [symmetric]) simp
  then have pe: "presign_events (events_since w w') = pes"
    by (simp add: p1 p2 p3) (simp add: presign_events_def)
  from am pe ks pk pu show ?thesis by simp
qed

lemma upload_run:
  "upload_images env0 upload_request world0 =
     (Inr (JsonResponse
        (Matches [''https://signed/a.jpg'', ''https://gallery.s3.eu-west-1.amazonaws.com/b.jpg'',
                  ''https://signed/a.jpg'']
           [''a.jpg'', ''b.jpg'', ''a.jpg'']) 200),
      world_after_upload)"
  by code_simp

lemma count_list_filter: "count_list (filter P xs) k = (if P k then count_list xs k else 0)"
  by (induction xs) auto

lemma entry_listed: "entry_of d p \<Longrightarrow> p \<in> fst ` set (files w) \<Longrightarrow> listdir w d \<noteq> []"
  by (auto simp: listdir_def filter_empty_conv)

lemma join_plain_entry:
  assumes "d \<noteq> []" "last d \<noteq> CHR ''/''" "plain_name n"
  shows "entry_of d (os_path_join d n)"
proof -
  from assms(3) have "n \<noteq> []" "CHR ''/'' \<notin> set n" by (simp_all add: plain_name_def)
  then have "hd n \<noteq> CHR ''/''" by (metis hd_in_set)
  with assms \<open>n \<noteq> []\<close> have "os_path_join d n = d @ CHR ''/'' # n"
    by (simp add: os_path_join_def)
  with \<open>n \<noteq> []\<close> \<open>CHR ''/'' \<notin> set n\<close> show ?thesis
    by (simp add: entry_of_def)
qed

subsection \<open>The response of a successful upload request\<close>

text \<open>
  C1. Every key of a successful upload response is one of the file names of the
  request's own gallery batch: it is in \<^verbatim>\<open>current_upload_filenames\<close>, and when the
  names are plain (as the framework hands them over) it is the name of a gallery file of
  the request. Every presign call of the request is made for such a key, and the URLs of
  the response are exactly the URLs taken from those calls. An identifier the search
  returned that is not a file name of the batch is therefore not in the response.
\<close>

theorem keys_within_batch:
  assumes "upload_images e req w = (Inr (JsonResponse (Matches urls ks) 200), w')"
  shows "set ks \<subseteq> set (current_upload_filenames e req)
         \<and> set (map fst (presign_events (events_since w w')))
             \<subseteq> GeneratePresignedUrl ` set (current_upload_filenames e req)
         \<and> urls = concat (map (retrieval_url e) (presign_events (events_since w w')))
         \<and> (list_all plain_name (map name (gallery_images req))
              \<longrightarrow> set ks \<subseteq> name ` set (gallery_images req))"
proof -
  from upload_images_events [OF assms] have
    ks: "ks = filter (\<lambda>m. m \<in> set (current_upload_filenames e req)) (all_matches_of (events_since w w'))"
    and pk: "map fst (presign_events (events_since w w')) = map GeneratePresignedUrl ks"
    and pu: "map (retrieval_url e) (presign_events (events_since w w')) = map (\<lambda>u. [u]) urls"
    by simp_all
  have "set (filter (\<lambda>m. m \<in> set (current_upload_filenames e req)) (all_matches_of (events_since w w')))
      \<subseteq> set (current_upload_filenames e req)"
    by auto
  with ks have sub: "set ks \<subseteq> set (current_upload_filenames e req)"
    by simp
  from pk sub have calls: "set (map fst (presign_events (events_since w w')))
      \<subseteq> GeneratePresignedUrl ` set (current_upload_filenames e req)"
    by auto
  have "concat (map (\<lambda>u. [u]) urls) = urls" by (induction urls) simp_all
  with pu have us: "urls = concat (map (retrieval_url e) (presign_events (events_since w w')))"
    by simp
  have "set ks \<subseteq> name ` set (gallery_images req)"
    if "list_all plain_name (map name (gallery_images req))"
  proof -
    from that have "map (\<lambda>f. os_path_basename (name f)) (gallery_images req) = map name (gallery_images req)"
      by (auto simp: list_all_iff plain_name_def basename_no_slash)
    with sub show ?thesis by (simp add: current_upload_filenames_eq)
  qed
  with sub calls us show ?thesis by blast
qed

theorem keys_within_batch_witness:
  "upload_images env0 upload_request world0 =
     (Inr (JsonResponse
        (Matches [''https://signed/a.jpg'', ''https://gallery.s3.eu-west-1.amazonaws.com/b.jpg'',
                  ''https://signed/a.jpg'']
           [''a.jpg'', ''b.jpg'', ''a.jpg'']) 200),
      world_after_upload)
   \<and> list_all plain_name (map name (gallery_images upload_request))
   \<and> all_matches_of (events_since world0 world_after_upload) = [''a.jpg'', ''old.jpg'', ''b.jpg'', ''a.jpg'']
   \<and> set [''a.jpg'', ''b.jpg'', ''a.jpg''] \<subseteq> name ` set (gallery_images upload_request)
   \<and> ''old.jpg'' \<notin> name ` set (gallery_images upload_request)"
proof -
  have plain: "list_all plain_name (map name (gallery_images upload_request))"
    by (simp add: upload_request_def plain_name_def)
  have seen: "all_matches_of (events_since world0 world_after_upload) = [''a.jpg'', ''old.jpg'', ''b.jpg'', ''a.jpg'']"
    by (simp add: all_matches_of_def events_since_def world0_def world_after_upload_def)
  have old: "''old.jpg'' \<notin> name ` set (gallery_images upload_request)"
    by (simp add: upload_request_def)
  from keys_within_batch [OF upload_run] plain
  have "set [''a.jpg'', ''b.jpg'', ''a.jpg''] \<subseteq> name ` set (gallery_images upload_request)"
    by blast
  with upload_run plain seen old show ?thesis by blast
qed

text \<open>
  C2. In a successful upload response the URL list and the key list have the same
  length, and position by position the URL is the one taken from the presign call made
  for the key at that position (the URL returned, or the fallback URL of that key when
  the call raised): the presign calls of the request are the keys in order, and their
  URLs are the URL list in order.
\<close>

theorem matches_correspond_to_keys:
  assumes "upload_images e req w = (Inr (JsonResponse (Matches urls ks) 200), w')"
  shows "length urls = length ks
         \<and> map fst (presign_events (events_since w w')) = map GeneratePresignedUrl ks
         \<and> map (retrieval_url e) (presign_events (events_since w w')) = map (\<lambda>u. [u]) urls"
proof -
  from upload_images_events [OF assms] have
    pk: "map fst (presign_events (events_since w w')) = map GeneratePresignedUrl ks"
    and pu: "map (retrieval_url e) (presign_events (events_since w w')) = map (\<lambda>u. [u]) urls"
    by simp_all
  from pk have "length (presign_events (events_since w w')) = length ks"
    by (metis length_map)
  moreover from pu have "length (presign_events (events_since w w')) = length urls"
    by (metis length_map)
  ultimately show ?thesis using pk pu by simp
qed

theorem matches_correspond_to_keys_witness:
  "upload_images env0 upload_request world0 =
     (Inr (JsonResponse
        (Matches [''https://signed/a.jpg'', ''https://gallery.s3.eu-west-1.amazonaws.com/b.jpg'',
                  ''https://signed/a.jpg'']
           [''a.jpg'', ''b.jpg'', ''a.jpg'']) 200),
      world_after_upload)
   \<and> length [''https://signed/a.jpg'', ''https://gallery.s3.eu-west-1.amazonaws.com/b.jpg'',
              ''https://signed/a.jpg''] = length [''a.jpg'', ''b.jpg'', ''a.jpg'']
   \<and> map fst (presign_events (events_since world0 world_after_upload))
       = map GeneratePresignedUrl [''a.jpg'', ''b.jpg'', ''a.jpg'']
   \<and> map (retrieval_url env0) (presign_events (events_since world0 world_after_upload))
       = map (\<lambda>u. [u]) [''https://signed/a.jpg'', ''https://gallery.s3.eu-west-1.amazonaws.com/b.jpg'',
              ''https://signed/a.jpg'']"
  by (rule conjI [OF upload_run matches_correspond_to_keys [OF upload_run]])

text \<open>
  C9. The keys of the response are the list the search returned, filtered by membership
  in the batch's file names: order is kept and nothing is merged, so an identifier of
  the batch occurs in the keys as often as the search returned it, and one presign call
  is made, and one URL given, for each occurrence.
\<close>

theorem batch_filter_keeps_duplicates:
  assumes "upload_images e req w = (Inr (JsonResponse (Matches urls ks) 200), w')"
  shows "ks = filter (\<lambda>m. m \<in> set (current_upload_filenames e req)) (all_matches_of (events_since w w'))
         \<and> count_list ks k
             = (if k \<in> set (current_upload_filenames e req)
                then count_list (all_matches_of (events_since w w')) k else 0)
         \<and> concat (map (retrieval_url e) (presign_events (events_since w w'))) = urls
         \<and> map fst (presign_events (events_since w w')) = map GeneratePresignedUrl ks"
proof -
  from upload_images_events [OF assms] have
    ks: "ks = filter (\<lambda>m. m \<in> set (current_upload_filenames e req)) (all_matches_of (events_since w w'))"
    and pk: "map fst (presign_events (events_since w w')) = map GeneratePresignedUrl ks"
    and pu: "map (retrieval_url e) (presign_events (events_since w w')) = map (\<lambda>u. [u]) urls"
    by simp_all
  have "concat (map (\<lambda>u. [u]) urls) = urls" by (induction urls) simp_all
  with pu have us: "concat (map (retrieval_url e) (presign_events (events_since w w'))) = urls"
    by simp
  have "count_list (filter (\<lambda>m. m \<in> set (current_upload_filenames e req)) (all_matches_of (events_since w w'))) k
      = (if k \<in> set (current_upload_filenames e req)
         then count_list (all_matches_of (events_since w w')) k else 0)"
    by (rule count_list_filter)
  with ks have "count_list ks k
      = (if k \<in> set (current_upload_filenames e req)
         then count_list (all_matches_of (events_since w w')) k else 0)"
    by simp
  with ks us pk show ?thesis by blast
qed

theorem batch_filter_keeps_duplicates_witness:
  "upload_images env0 upload_request world0 =
     (Inr (JsonResponse
        (Matches [''https://signed/a.jpg'', ''https://gallery.s3.eu-west-1.amazonaws.com/b.jpg'',
                  ''https://signed/a.jpg'']
           [''a.jpg'', ''b.jpg'', ''a.jpg'']) 200),
      world_after_upload)
   \<and> all_matches_of (events_since world0 world_after_upload) = [''a.jpg'', ''old.jpg'', ''b.jpg'', ''a.jpg'']
   \<and> count_list [''a.jpg'', ''b.jpg'', ''a.jpg''] ''a.jpg'' = 2
   \<and> count_list (all_matches_of (events_since world0 world_after_upload)) ''a.jpg'' = 2"
proof -
  have seen: "all_matches_of (events_since world0 world_after_upload) = [''a.jpg'', ''old.jpg'', ''b.jpg'', ''a.jpg'']"
    by (simp add: all_matches_of_def events_since_def world0_def world_after_upload_def)
  have two: "count_list [''a.jpg'', ''b.jpg'', ''a.jpg''] ''a.jpg'' = 2"
    by simp
  have batch: "''a.jpg'' \<in> set (current_upload_filenames env0 upload_request)"
    by (simp add: current_upload_filenames_eq upload_request_def os_path_basename_def)
  from batch_filter_keeps_duplicates [OF upload_run, of "''a.jpg''"] batch two
  have "count_list (all_matches_of (events_since world0 world_after_upload)) ''a.jpg'' = 2"
    by simp
  with upload_run seen two show ?thesis by blast
qed

subsection \<open>The sweep of the upload folder\<close>

text \<open>
  C4, as the code has it. When the upload view returns its response to a request that
  got past the missing-files check, the upload folder lists no file, and when the names
  of the request's files are plain none of the paths the view wrote (gallery and
  reference alike) is left; this holds whatever the index and presign calls did, since
  their errors are caught. Nothing of the kind holds when an exception leaves the view:
  the sweep is its last step and is not reached.
\<close>

theorem scratch_swept_on_response:
  assumes "upload_images e req w = (Inr (JsonResponse (Matches urls ks) 200), w')"
  shows "listdir w' (UPLOAD_FOLDER e) = []
         \<and> (list_all plain_name (map name (request_files req))
              \<longrightarrow> set (scratch_paths e req) \<inter> fst ` set (files w') = {})"
proof -
  from upload_images_200 [OF assms] have empty: "listdir w' (UPLOAD_FOLDER e) = []"
    by blast
  have "set (scratch_paths e req) \<inter> fst ` set (files w') = {}"
    if plain: "list_all plain_name (map name (request_files req))"
  proof (rule ccontr)
    assume "set (scratch_paths e req) \<inter> fst ` set (files w') \<noteq> {}"
    then obtain f where f: "f \<in> set (request_files req)"
      and left: "os_path_join (UPLOAD_FOLDER e) (name f) \<in> fst ` set (files w')"
      by (auto simp: scratch_paths_def)
    from plain f have "plain_name (name f)"
      by (auto simp: list_all_iff)
    with upload_folder_shape [of e]
    have "entry_of (UPLOAD_FOLDER e) (os_path_join (UPLOAD_FOLDER e) (name f))"
      by (intro join_plain_entry) simp_all
    from entry_listed [OF this left] empty show False by simp
  qed
  with empty show ?thesis by blast
qed

theorem scratch_swept_on_response_witness:
  "upload_images env0 upload_request world0 =
     (Inr (JsonResponse
        (Matches [''https://signed/a.jpg'', ''https://gallery.s3.eu-west-1.amazonaws.com/b.jpg'',
                  ''https://signed/a.jpg'']
           [''a.jpg'', ''b.jpg'', ''a.jpg'']) 200),
      world_after_upload)
   \<and> list_all plain_name (map name (request_files upload_request))
   \<and> scratch_paths env0 upload_request =
       [''/srv/app/uploads/a.jpg'', ''/srv/app/uploads/b.jpg'', ''/srv/app/uploads/c.jpg'',
        ''/srv/app/uploads/ref.png'']
   \<and> listdir world_after_upload (UPLOAD_FOLDER env0) = []
   \<and> set (scratch_paths env0 upload_request) \<inter> fst ` set (files world_after_upload) = {}"
proof -
  have plain: "list_all plain_name (map name (request_files upload_request))"
    by (simp add: upload_request_def request_files_def plain_name_def)
  have paths: "scratch_paths env0 upload_request =
       [''/srv/app/uploads/a.jpg'', ''/srv/app/uploads/b.jpg'', ''/srv/app/uploads/c.jpg'',
        ''/srv/app/uploads/ref.png'']"
    by code_simp
  from scratch_swept_on_response [OF upload_run] plain
  have "listdir world_after_upload (UPLOAD_FOLDER env0) = []"
    and "set (scratch_paths env0 upload_request) \<inter> fst ` set (files world_after_upload) = {}"
    by blast+
  with upload_run plain paths show ?thesis by blast
qed

text \<open>The claim as the spec states it fails: the search raises, the exception leaves the
  view, and the four files written for the request are still in the upload folder.\<close>

theorem scratch_left_when_search_raises:
  "fst (upload_images env_search_down upload_request world0) = Inl (ClientError ''Throttling'')
   \<and> files (snd (upload_images env_search_down upload_request world0)) =
       [(''/srv/app/uploads/a.jpg'', ''AAA''), (''/srv/app/uploads/b.jpg'', ''AAA''),
        (''/srv/app/uploads/c.jpg'', ''CCC''), (''/srv/app/uploads/ref.png'', ''RRR'')]
   \<and> listdir (snd (upload_images env_search_down upload_request world0)) (UPLOAD_FOLDER env_search_down) =
       [''a.jpg'', ''b.jpg'', ''c.jpg'', ''ref.png'']"
  by code_simp

subsection \<open>Missing files\<close>

text \<open>
  C7, as the code has it. The collection is ensured before the files are looked at. For
  a POST without gallery files or without reference file the view writes no file, leaves
  the cache file alone and makes no remote call but that one; it answers 400
  \<^verbatim>\<open>Missing files\<close> when the collection call returns or reports that the collection
  exists, and any other error of that call leaves the view instead of the 400.
\<close>

theorem missing_files_rejected:
  assumes "request_method req = ''POST''"
    and "gallery_images req = [] \<or> reference_image req = None"
    and "upload_images e req w = (r, w')"
  shows "files w' = files w \<and> cache_file w' = cache_file w
         \<and> map fst (events_since w w') = [CreateCollection]
         \<and> r = (case create_collection e (trace w) of
                  None \<Rightarrow> Inr (JsonResponse (ErrorMessage ''Missing files'') 400)
                | Some x \<Rightarrow>
                    if x = ResourceAlreadyExistsException
                    then Inr (JsonResponse (ErrorMessage ''Missing files'') 400)
                    else Inl x)"
proof -
  from assms(2) have miss: "gallery_images req = [] \<or> missing (reference_image req)"
    by (auto simp: missing_def)
  obtain r1 w1 where ens: "ensure_collection_exists e w = (r1, w1)"
    by (cases "ensure_collection_exists e w")
  from assms(1,3) ens miss have w': "w' = w1"
    by (cases r1) (auto simp: upload_images_def Let_def)
  from ensure_collection_exists_trace [OF ens] obtain rep where
    same: "files w1 = files w" "cache_file w1 = cache_file w"
    and t: "trace w1 = trace w @ [(CreateCollection, rep)]"
    by blast
  from t have ev: "map fst (events_since w w1) = [CreateCollection]"
    by (simp add: events_since_def)
  have res: "r = (case create_collection e (trace w) of
                  None \<Rightarrow> Inr (JsonResponse (ErrorMessage ''Missing files'') 400)
                | Some x \<Rightarrow>
                    if x = ResourceAlreadyExistsException
                    then Inr (JsonResponse (ErrorMessage ''Missing files'') 400)
                    else Inl x)"
  proof (cases "create_collection e (trace w)")
    case None
    with assms(1,3) miss show ?thesis
      by (auto simp: upload_images_def ensure_collection_exists_def Let_def)
  next
    case (Some x)
    with assms(1,3) miss show ?thesis
      by (cases x) (auto simp: upload_images_def ensure_collection_exists_def Let_def)
  qed
  from w' same ev res show ?thesis by simp
qed

theorem missing_files_rejected_witness:
  "request_method request_without_reference = ''POST''
   \<and> reference_image request_without_reference = None
   \<and> upload_images env0 request_without_reference world0 =
       (Inr (JsonResponse (ErrorMessage ''Missing files'') 400),
        world0\<lparr>trace := [(CreateCollection, Returned)]\<rparr>)
   \<and> files (world0\<lparr>trace := [(CreateCollection, Returned)]\<rparr>) = files world0
   \<and> map fst (events_since world0 (world0\<lparr>trace := [(CreateCollection, Returned)]\<rparr>)) = [CreateCollection]"
proof -
  have m: "request_method request_without_reference = ''POST''"
    by (simp add: request_without_reference_def upload_request_def)
  have n: "reference_image request_without_reference = None"
    by (simp add: request_without_reference_def)
  have run: "upload_images env0 request_without_reference world0 =
       (Inr (JsonResponse (ErrorMessage ''Missing files'') 400),
        world0\<lparr>trace := [(CreateCollection, Returned)]\<rparr>)"
    by code_simp
  from missing_files_rejected [OF m disjI2 [OF n] run]
  have "files (world0\<lparr>trace := [(CreateCollection, Returned)]\<rparr>) = files world0"
    and "map fst (events_since world0 (world0\<lparr>trace := [(CreateCollection, Returned)]\<rparr>)) = [CreateCollection]"
    by blast+
  with m n run show ?thesis by blast
qed

text \<open>The claim as the spec states it fails: the reference file is missing and the
  collection call raises an error other than \<^verbatim>\<open>ResourceAlreadyExistsException\<close>; the
  view returns no 400, the error leaves it.\<close>

theorem missing_files_no_400_when_collection_raises:
  "request_method request_without_reference = ''POST''
   \<and> reference_image request_without_reference = None
   \<and> fst (upload_images env_collection_down request_without_reference world0)
       = Inl (ClientError ''AccessDenied'')"
  by code_simp

subsection \<open>Loading the cache\<close>

text \<open>
  C6, as the code has it. \<^verbatim>\<open>load_cache\<close> returns the empty mapping when no cache
  file exists and the persisted mapping when the file holds one; when the file exists
  and is not valid JSON the decoding error is raised to the caller, and
  \<^verbatim>\<open>index_faces_if_new\<close>, which loads the cache outside any \<^verbatim>\<open>try\<close>, raises it
  in turn without making a call.
\<close>

theorem load_cache_cases:
  "load_cache (w\<lparr>cache_file := None\<rparr>) = Inr []
   \<and> load_cache (w\<lparr>cache_file := Some (JSONObject d)\<rparr>) = Inr d
   \<and> load_cache (w\<lparr>cache_file := Some (Malformed s)\<rparr>) = Inl JSONDecodeError
   \<and> index_faces_if_new e filepaths (w\<lparr>cache_file := Some (Malformed s)\<rparr>)
       = (Inl JSONDecodeError, w\<lparr>cache_file := Some (Malformed s)\<rparr>)"
  by (simp add: load_cache_def index_faces_if_new_def)

theorem load_cache_cases_witness:
  "load_cache (world0\<lparr>cache_file := None\<rparr>) = Inr []
   \<and> load_cache (world0\<lparr>cache_file := Some (JSONObject [(''md5:AAA'', ''a.jpg'')])\<rparr>)
       = Inr [(''md5:AAA'', ''a.jpg'')]
   \<and> load_cache (world0\<lparr>cache_file := Some (Malformed ''{not json'')\<rparr>) = Inl JSONDecodeError
   \<and> index_faces_if_new env0 [''/srv/app/uploads/a.jpg''] (world0\<lparr>cache_file := Some (Malformed ''{not json'')\<rparr>)
       = (Inl JSONDecodeError, world0\<lparr>cache_file := Some (Malformed ''{not json'')\<rparr>)"
  by (rule load_cache_cases)

text \<open>The claim as the spec states it fails: a cache file that is not valid JSON does
  not load as the empty mapping.\<close>

theorem load_cache_corrupt_raises:
  "cache_file world_corrupt = Some (Malformed ''{not json'')
   \<and> load_cache world_corrupt = Inl JSONDecodeError
   \<and> load_cache world_corrupt \<noteq> Inr []"
  by (simp add: load_cache_def world_corrupt_def)

subsection \<open>The archive\<close>

lemma writestr_entry:
  "writestr e k b zf = (if accepts_name e k then Inr (zf @ [(sanitize_filename k, b)]) else Inl (if sanitize_filename k = [] \<and> \<not> zip_takes_empty_name e then IndexError else StructError))"
  by (auto simp: writestr_def accepts_name_def Let_def)

lemma zip_entry_eq:
  "zip_entry e k b = (if accepts_name e k then [(sanitize_filename k, b)] else [])"
  by (simp add: zip_entry_def writestr_entry)

lemma sanitize_plain: "CHR 0x00 \<notin> set k \<Longrightarrow> sanitize_filename k = k"
  by (auto simp: sanitize_filename_def takeWhile_eq_all_conv)

lemma zip_entry_plain: "plain_key k \<Longrightarrow> zip_entry e k b = [(k, b)]"
  by (simp add: zip_entry_eq plain_key_def accepts_name_def sanitize_plain)

lemma zip_loop_result:
  "zip_loop e keys zf w = (zf', w') \<Longrightarrow>
     files w' = files w \<and> cache_file w' = cache_file w
     \<and> (\<exists>evs. trace w' = trace w @ evs
           \<and> map fst evs = map GetObject keys
           \<and> zf' = zf @ concat (map (archived e) evs))"
proof (induction keys arbitrary: zf w)
  case Nil
  then show ?case by simp
next
  case (Cons k keys)
  show ?case
  proof (cases "get_object e (trace w) k")
    case (Inr content)
    let ?w = "log_event (GetObject k) (Body content) w"
    from Inr Cons.prems
    have "zip_loop e keys (zf @ zip_entry e k content) ?w = (zf', w')"
      by (simp add: writestr_entry zip_entry_eq split: if_splits)
    from Cons.IH [OF this] obtain evs where
      "files w' = files w" "cache_file w' = cache_file w"
      "trace w' = trace w @ (GetObject k, Body content) # evs"
      "map fst evs = map GetObject keys"
      "zf' = zf @ zip_entry e k content @ concat (map (archived e) evs)"
      by (auto simp: log_event_simps)
    then show ?thesis
      by (intro conjI exI [where x = "(GetObject k, Body content) # evs"]) simp_all
  next
    case (Inl x)
    with Cons.prems
    have "zip_loop e keys zf (log_event (GetObject k) (Raised x) w) = (zf', w')"
      by simp
    from Cons.IH [OF this] obtain evs where
      "files w' = files w" "cache_file w' = cache_file w"
      "trace w' = trace w @ (GetObject k, Raised x) # evs"
      "map fst evs = map GetObject keys" "zf' = zf @ concat (map (archived e) evs)"
      by (auto simp: log_event_simps)
    then show ?thesis
      by (intro conjI exI [where x = "(GetObject k, Raised x) # evs"]) simp_all
  qed
qed

lemma download_zip_archive:
  assumes "body req = Keys keys"
    and "download_zip e req w = (Inr (FileResponse zf ct cd), w')"
  shows "map fst (events_since w w') = map GetObject keys
         \<and> zf = concat (map (archived e) (events_since w w'))"
proof -
  obtain zf1 w1 where l: "zip_loop e keys [] w = (zf1, w1)"
    by (cases "zip_loop e keys [] w")
  from assms l have "zf = zf1" "w' = w1"
    by (auto simp: download_zip_def split: if_splits)
  with zip_loop_result [OF l] show ?thesis
    by (auto simp: events_since_def)
qed

lemma archived_plain:
  "map fst evs = map GetObject keys \<Longrightarrow> list_all plain_key keys \<Longrightarrow>
     concat (map (archived e) evs) = concat (map fetched evs)
     \<and> length (concat (map fetched evs)) = length (filter (\<lambda>ev. fetch_succeeded (snd ev)) evs)"
proof (induction evs arbitrary: keys)
  case Nil
  then show ?case by simp
next
  case (Cons ev evs)
  then obtain k ks where keys: "keys = k # ks" and c: "fst ev = GetObject k"
    and rest: "map fst evs = map GetObject ks"
    by (cases keys) auto
  from Cons.prems(2) keys have pk: "plain_key k" and pks: "list_all plain_key ks"
    by simp_all
  obtain r where ev: "ev = (GetObject k, r)" using c by (cases ev) simp
  from Cons.IH [OF rest pks] show ?case
    by (cases r) (simp_all add: ev zip_entry_plain [OF pk])
qed

lemma archived_in_order:
  "map fst evs = map GetObject keys \<Longrightarrow>
     concat (map (archived e) evs)
       = map (\<lambda>kr. (sanitize_filename (fst kr), body_of (snd kr)))
           (filter (\<lambda>kr. fetch_succeeded (snd kr) \<and> accepts_name e (fst kr)) (zip keys (map snd evs)))"
proof (induction evs arbitrary: keys)
  case Nil
  then show ?case by simp
next
  case (Cons ev evs)
  then obtain k ks where keys: "keys = k # ks" and c: "fst ev = GetObject k"
    and rest: "map fst evs = map GetObject ks"
    by (cases keys) auto
  obtain r where ev: "ev = (GetObject k, r)" using c by (cases ev) simp
  from Cons.IH [OF rest] show ?case
    by (cases r) (simp_all add: keys ev zip_entry_eq)
qed

lemma zip_run:
  "download_zip env0 zip_request world0 =
     (Inr (FileResponse [(''a.jpg'', ''AAA''), (''a.jpg'', ''AAA'')]
        ''application/zip'' ''attachment; filename=matches.zip''),
      world0\<lparr>trace := [(GetObject ''a.jpg'', Body ''AAA''),
                       (GetObject ''gone.jpg'', Raised (ClientError ''NoSuchKey'')),
                       (GetObject ''a.jpg'', Body ''AAA'')]\<rparr>)"
  by (simp add: download_zip_def zip_request_def env0_def world0_def writestr_def
        sanitize_filename_def log_event_def Let_def)

text \<open>
  C8, as the code has it. For a POST whose body holds a non-empty key list, the archive
  view fetches the keys one after the other, each once; whatever the fetches do, the
  view returns the archive as its response and no error; the archive holds, in turn,
  what \<^verbatim>\<open>writestr\<close> appended for each fetch that returned and nothing for a fetch that
  raised. The name of an entry is the key cut at its first null character. When every
  key is its own entry name (not empty, without null character, of at most 65535 bytes)
  the archive holds exactly one entry for each fetch that returned, named by the key,
  with the bytes fetched. No local file is touched.
\<close>

theorem archive_of_fetched_keys:
  assumes "request_method req = ''POST''" and "body req = Keys keys" and "keys \<noteq> []"
    and "download_zip e req w = (r, w')"
  shows "map fst (events_since w w') = map GetObject keys
         \<and> r = Inr (FileResponse (concat (map (archived e) (events_since w w')))
                   ''application/zip'' ''attachment; filename=matches.zip'')
         \<and> archived e (GetObject k, Body b)
             = (if accepts_name e k then [(sanitize_filename k, b)] else [])
         \<and> archived e (GetObject k, Raised x) = []
         \<and> (list_all plain_key keys
              \<longrightarrow> concat (map (archived e) (events_since w w')) = concat (map fetched (events_since w w'))
                  \<and> length (concat (map fetched (events_since w w')))
                      = length (filter (\<lambda>ev. fetch_succeeded (snd ev)) (events_since w w')))
         \<and> files w' = files w"
proof -
  obtain zf1 w1 where l: "zip_loop e keys [] w = (zf1, w1)"
    by (cases "zip_loop e keys [] w")
  from assms l have r: "r = Inr (FileResponse zf1 ''application/zip'' ''attachment; filename=matches.zip'')"
    and w': "w' = w1"
    by (auto simp: download_zip_def)
  from zip_loop_result [OF l] w' have f: "files w' = files w" by simp
  from download_zip_archive [OF assms(2) assms(4) [unfolded r]]
  have calls: "map fst (events_since w w') = map GetObject keys"
    and zf: "zf1 = concat (map (archived e) (events_since w w'))"
    by simp_all
  have one: "archived e (GetObject k, Body b)
             = (if accepts_name e k then [(sanitize_filename k, b)] else [])"
    by (simp add: zip_entry_eq)
  have none: "archived e (GetObject k, Raised x) = []"
    by simp
  from archived_plain [OF calls] r zf calls f one none show ?thesis
    by blast
qed

theorem archive_of_fetched_keys_witness:
  "request_method zip_request = ''POST''
   \<and> body zip_request = Keys [''a.jpg'', ''gone.jpg'', ''a.jpg'']
   \<and> list_all plain_key [''a.jpg'', ''gone.jpg'', ''a.jpg'']
   \<and> download_zip env0 zip_request world0 =
       (Inr (FileResponse [(''a.jpg'', ''AAA''), (''a.jpg'', ''AAA'')]
          ''application/zip'' ''attachment; filename=matches.zip''),
        world0\<lparr>trace := [(GetObject ''a.jpg'', Body ''AAA''),
                         (GetObject ''gone.jpg'', Raised (ClientError ''NoSuchKey'')),
                         (GetObject ''a.jpg'', Body ''AAA'')]\<rparr>)
   \<and> map fst (events_since world0
         (world0\<lparr>trace := [(GetObject ''a.jpg'', Body ''AAA''),
                          (GetObject ''gone.jpg'', Raised (ClientError ''NoSuchKey'')),
                          (GetObject ''a.jpg'', Body ''AAA'')]\<rparr>))
       = map GetObject [''a.jpg'', ''gone.jpg'', ''a.jpg'']
   \<and> concat (map (archived env0) (events_since world0
         (world0\<lparr>trace := [(GetObject ''a.jpg'', Body ''AAA''),
                          (GetObject ''gone.jpg'', Raised (ClientError ''NoSuchKey'')),
                          (GetObject ''a.jpg'', Body ''AAA'')]\<rparr>)))
       = concat (map fetched (events_since world0
         (world0\<lparr>trace := [(GetObject ''a.jpg'', Body ''AAA''),
                          (GetObject ''gone.jpg'', Raised (ClientError ''NoSuchKey'')),
                          (GetObject ''a.jpg'', Body ''AAA'')]\<rparr>)))"
proof -
  have m: "request_method zip_request = ''POST''"
    by (simp add: zip_request_def)
  have b: "body zip_request = Keys [''a.jpg'', ''gone.jpg'', ''a.jpg'']"
    by (simp add: zip_request_def)
  have ne: "[''a.jpg'', ''gone.jpg'', ''a.jpg''] \<noteq> []"
    by simp
  have pl: "list_all plain_key [''a.jpg'', ''gone.jpg'', ''a.jpg'']"
    by (simp add: plain_key_def)
  note run = zip_run
  from archive_of_fetched_keys [OF m b ne run] pl
  have "map fst (events_since world0
         (world0\<lparr>trace := [(GetObject ''a.jpg'', Body ''AAA''),
                          (GetObject ''gone.jpg'', Raised (ClientError ''NoSuchKey'')),
                          (GetObject ''a.jpg'', Body ''AAA'')]\<rparr>))
       = map GetObject [''a.jpg'', ''gone.jpg'', ''a.jpg'']"
    and "concat (map (archived env0) (events_since world0
         (world0\<lparr>trace := [(GetObject ''a.jpg'', Body ''AAA''),
                          (GetObject ''gone.jpg'', Raised (ClientError ''NoSuchKey'')),
                          (GetObject ''a.jpg'', Body ''AAA'')]\<rparr>)))
       = concat (map fetched (events_since world0
         (world0\<lparr>trace := [(GetObject ''a.jpg'', Body ''AAA''),
                          (GetObject ''gone.jpg'', Raised (ClientError ''NoSuchKey'')),
                          (GetObject ''a.jpg'', Body ''AAA'')]\<rparr>)))"
    by blast+
  with m b pl run show ?thesis by blast
qed

text \<open>The claim as the spec states it fails: the key has a null character, its fetch
  returns, and the entry written for it is named by the part of the key before that
  character, not by the key.\<close>

theorem archive_entry_name_cut_at_null:
  "request_method zip_request_nul = ''POST''
   \<and> body zip_request_nul = Keys [nul_key]
   \<and> get_object env_every_key [] nul_key = Inr ''AAA''
   \<and> fst (download_zip env_every_key zip_request_nul world0) =
       Inr (FileResponse [(''a'', ''AAA'')] ''application/zip'' ''attachment; filename=matches.zip'')
   \<and> ''a'' \<noteq> nul_key"
  by (simp add: download_zip_def zip_request_nul_def zip_request_def env_every_key_def env0_def
        world0_def writestr_def sanitize_filename_def log_event_def Let_def nul_key_def)

text \<open>
  C10. Whenever the archive view returns an archive, its entries are, in the order of
  the request's key list, those of the keys whose fetch returned and whose entry the
  archive took: the key list paired with the fetch replies, the other pairs removed,
  each pair giving the entry named by the key cut at its first null character with the
  bytes fetched. In particular the entry names are a subsequence of the key list with
  every key so cut, and of the key list itself when no key has a null character.
\<close>

theorem archive_entries_in_request_order:
  assumes "body req = Keys keys"
    and "download_zip e req w = (Inr (FileResponse zf ct cd), w')"
  shows "zf = map (\<lambda>kr. (sanitize_filename (fst kr), body_of (snd kr)))
               (filter (\<lambda>kr. fetch_succeeded (snd kr) \<and> accepts_name e (fst kr))
                  (zip keys (map snd (events_since w w'))))
         \<and> subseq (map fst zf) (map sanitize_filename keys)
         \<and> (list_all (\<lambda>k. CHR 0x00 \<notin> set k) keys \<longrightarrow> subseq (map fst zf) keys)"
proof -
  let ?evs = "events_since w w'"
  let ?kept = "filter (\<lambda>kr. fetch_succeeded (snd kr) \<and> accepts_name e (fst kr)) (zip keys (map snd ?evs))"
  from download_zip_archive [OF assms] have calls: "map fst ?evs = map GetObject keys"
    and zf: "zf = concat (map (archived e) ?evs)"
    by simp_all
  from archived_in_order [OF calls] zf
  have entries: "zf = map (\<lambda>kr. (sanitize_filename (fst kr), body_of (snd kr))) ?kept"
    by simp
  then have names: "map fst zf = map sanitize_filename (map fst ?kept)"
    by simp
  from calls have len: "length keys = length (map snd ?evs)"
    by (metis length_map)
  have "subseq (map fst ?kept) (map fst (zip keys (map snd ?evs)))"
    by (intro subseq_map subseq_filter_left)
  also from len have "map fst (zip keys (map snd ?evs)) = keys"
    by (rule map_fst_zip)
  finally have "subseq (map sanitize_filename (map fst ?kept)) (map sanitize_filename keys)"
    by (rule subseq_map)
  with names have sub: "subseq (map fst zf) (map sanitize_filename keys)"
    by simp
  have "subseq (map fst zf) keys" if "list_all (\<lambda>k. CHR 0x00 \<notin> set k) keys"
  proof -
    from that have "map sanitize_filename keys = keys"
      by (induction keys) (simp_all add: sanitize_plain)
    with sub show ?thesis by simp
  qed
  with entries sub show ?thesis by blast
qed

theorem archive_entries_in_request_order_witness:
  "body zip_request = Keys [''a.jpg'', ''gone.jpg'', ''a.jpg'']
   \<and> list_all (\<lambda>k. CHR 0x00 \<notin> set k) [''a.jpg'', ''gone.jpg'', ''a.jpg'']
   \<and> download_zip env0 zip_request world0 =
       (Inr (FileResponse [(''a.jpg'', ''AAA''), (''a.jpg'', ''AAA'')]
          ''application/zip'' ''attachment; filename=matches.zip''),
        world0\<lparr>trace := [(GetObject ''a.jpg'', Body ''AAA''),
                         (GetObject ''gone.jpg'', Raised (ClientError ''NoSuchKey'')),
                         (GetObject ''a.jpg'', Body ''AAA'')]\<rparr>)
   \<and> subseq (map fst [(''a.jpg'', ''AAA''), (''a.jpg'', ''AAA'')]) [''a.jpg'', ''gone.jpg'', ''a.jpg'']"
proof -
  have b: "body zip_request = Keys [''a.jpg'', ''gone.jpg'', ''a.jpg'']"
    by (simp add: zip_request_def)
  have pl: "list_all (\<lambda>k. CHR 0x00 \<notin> set k) [''a.jpg'', ''gone.jpg'', ''a.jpg'']"
    by simp
  note run = zip_run
  from archive_entries_in_request_order [OF b run] pl
  have "subseq (map fst [(''a.jpg'', ''AAA''), (''a.jpg'', ''AAA'')]) [''a.jpg'', ''gone.jpg'', ''a.jpg'']"
    by blast
  with b pl run show ?thesis by blast
qed

subsection \<open>The dedup cache in the index loop\<close>


















end
